theory Spec2Isabelle
  imports Complex_Main "HOL-Library.Word"
begin

unbundle bit_operations_syntax

section \<open>Data model\<close>

type_synonym uint8 = "8 word"
type_synonym uint16 = "16 word"
type_synonym uint32 = "32 word"

text \<open>
  The scripts \<^verbatim>\<open>botafogo.py\<close>, \<^verbatim>\<open>nhd.py\<close>, \<^verbatim>\<open>HousePepperCman.py\<close> and
  \<^verbatim>\<open>animate-single-image.py\<close> declare the same ctypes mirror of the kernel's variable
  screen descriptor. Each colour field is \<^verbatim>\<open>ctypes.c_uint32 * 3\<close>, an array of exactly
  three unsigned 32-bit words, modelled as a triple; \<open>at0\<close>, \<open>at1\<close>, \<open>at2\<close> are the
  subscripts \<^verbatim>\<open>[0]\<close>, \<^verbatim>\<open>[1]\<close>, \<^verbatim>\<open>[2]\<close>.
\<close>

type_synonym uint32x3 = "uint32 \<times> uint32 \<times> uint32"

fun at0 :: "uint32x3 \<Rightarrow> uint32" where
  "at0 (a, b, c) = a"

fun at1 :: "uint32x3 \<Rightarrow> uint32" where
  "at1 (a, b, c) = b"

fun at2 :: "uint32x3 \<Rightarrow> uint32" where
  "at2 (a, b, c) = c"

record VarScreenInfo =
  xres :: uint32
  yres :: uint32
  xres_virtual :: uint32
  yres_virtual :: uint32
  xoffset :: uint32
  yoffset :: uint32
  bits_per_pixel :: uint32
  grayscale :: uint32
  red :: uint32x3
  green :: uint32x3
  blue :: uint32x3
  transp :: uint32x3

text \<open>
  The structure is filled by the ioctl \<^verbatim>\<open>FBIOGET_VSCREENINFO = 0x4600\<close>. The kernel
  writes each colour field as a \<^verbatim>\<open>struct fb_bitfield { __u32 offset; __u32 length;
  __u32 msb_right; }\<close>, in that order, so the three words of a field are the channel's
  bit offset, its bit length and its most-significant-bit-is-right flag.
\<close>

definition bit_offset :: "uint32x3 \<Rightarrow> uint32" where
  "bit_offset f = at0 f"

definition bit_length :: "uint32x3 \<Rightarrow> uint32" where
  "bit_length f = at1 f"

definition msb_right :: "uint32x3 \<Rightarrow> uint32" where
  "msb_right f = at2 f"

text \<open>
  An RGB pixel as \<^verbatim>\<open>np.array(image)\<close> holds it: three \<^verbatim>\<open>uint8\<close> channels, red first.
  The array has shape \<open>(height, width, 3)\<close>: a list of rows, each a list of pixels.
\<close>

type_synonym pixel = "uint8 \<times> uint8 \<times> uint8"

type_synonym 'a array2 = "'a list list"

section \<open>Pixel encoding\<close>

text \<open>\<^verbatim>\<open>image_array[:, :, ::-1]\<close>: the channel axis reversed.\<close>

fun reverse_channels :: "pixel \<Rightarrow> pixel" where
  "reverse_channels (c0, c1, c2) = (c2, c1, c0)"

text \<open>\<^verbatim>\<open>np.insert(image_array, 3, 255, axis=2)\<close>: 255 inserted at index 3 of the channel axis.\<close>

fun insert_alpha :: "pixel \<Rightarrow> uint8 list" where
  "insert_alpha (c0, c1, c2) = [c0, c1, c2, 255]"

text \<open>
  The RGB565 word. \<^verbatim>\<open>image_array[:,:,0] >> 3\<close> is a shift on \<^verbatim>\<open>uint8\<close>,
  \<^verbatim>\<open>.astype(np.uint16)\<close> widens it, and \<^verbatim>\<open><< 11\<close> is a shift on \<^verbatim>\<open>uint16\<close>.
\<close>

fun rgb565 :: "pixel \<Rightarrow> uint16" where
  "rgb565 (c0, c1, c2) =
     (let r = push_bit 11 (ucast (drop_bit 3 c0) :: uint16);
          g = push_bit 5 (ucast (drop_bit 2 c1) :: uint16);
          b = (ucast (drop_bit 3 c2) :: uint16)
      in r OR g OR b)"

text \<open>
  \<^verbatim>\<open>.flatten().tobytes()\<close> writes each element in the byte order of the host; the
  ZCU104's processor (like every platform CPython's numpy commonly runs on) is
  little-endian, so a \<^verbatim>\<open>uint16\<close> is its low byte followed by its high byte.
\<close>

definition tobytes_uint16 :: "uint16 \<Rightarrow> uint8 list" where
  "tobytes_uint16 w = [ucast w, ucast (drop_bit 8 w)]"

fun tobytes_rgb :: "pixel \<Rightarrow> uint8 list" where
  "tobytes_rgb (c0, c1, c2) = [c0, c1, c2]"

definition flatten_tobytes :: "('a \<Rightarrow> uint8 list) \<Rightarrow> 'a array2 \<Rightarrow> uint8 list" where
  "flatten_tobytes tobytes a = concat (map (\<lambda>row. concat (map tobytes row)) a)"

text \<open>
  The block "Determine the correct pixel format ... Flatten the array and convert to
  bytes", identical in the four scripts. There is no \<^verbatim>\<open>else\<close> branch: for any other
  depth the RGB array is flattened as it is.
\<close>

definition encode :: "VarScreenInfo \<Rightarrow> pixel array2 \<Rightarrow> uint8 list" where
  "encode var_info image_array =
     (if bits_per_pixel var_info = 32 then
        flatten_tobytes insert_alpha
          (if at2 (blue var_info) = 0
           then map (map reverse_channels) image_array
           else image_array)
      else if bits_per_pixel var_info = 16 then
        flatten_tobytes tobytes_uint16 (map (map rgb565) image_array)
      else
        flatten_tobytes tobytes_rgb image_array)"

section \<open>The external image library and the device\<close>

text \<open>
  Exceptions are values. Every script wraps its body in \<^verbatim>\<open>try: ... except Exception as
  e: print(f"Error: {str(e)}")\<close>, so a raise ends the body and the function returns
  normally; the result \<open>Inl e\<close> of a model function means that the handler ran for
  \<open>e\<close>, \<open>Inr ()\<close> that the body ran to its end.
\<close>

datatype error = ValueError | ZeroDivisionError | OSError | OverflowError

text \<open>Sequencing: the first raise ends the body.\<close>

definition and_then :: "error + 'a \<Rightarrow> ('a \<Rightarrow> error + 'b) \<Rightarrow> error + 'b" where
  "and_then r f = (case r of Inl e \<Rightarrow> Inl e | Inr x \<Rightarrow> f x)"

text \<open>
  A decoded RGB image as PIL exposes it: \<^verbatim>\<open>image.width\<close>, \<^verbatim>\<open>image.height\<close> and the
  pixel at column \<open>x\<close>, row \<open>y\<close>. Only positions inside the image are ever read.
\<close>

record image =
  width :: nat
  height :: nat
  getpixel :: "nat \<Rightarrow> nat \<Rightarrow> pixel"

text \<open>
  \<^verbatim>\<open>Image.new('RGB', size)\<close>: PIL's default fill colour is 0, black, which is also what
  \<^verbatim>\<open>color='black'\<close> gives.
\<close>

definition Image_new :: "nat \<times> nat \<Rightarrow> image" where
  "Image_new sz = \<lparr>width = fst sz, height = snd sz, getpixel = (\<lambda>x y. (0, 0, 0))\<rparr>"

text \<open>
  \<^verbatim>\<open>im.paste(src, (x, y))\<close>: the source replaces the region whose upper left corner is
  \<open>(x, y)\<close> and whose size is the source's, clipped to \<open>im\<close>; the offsets may be
  negative.
\<close>

definition covers :: "image \<Rightarrow> int \<times> int \<Rightarrow> nat \<Rightarrow> nat \<Rightarrow> bool" where
  "covers src box x y \<longleftrightarrow>
     fst box \<le> int x \<and> int x < fst box + int (width src) \<and>
     snd box \<le> int y \<and> int y < snd box + int (height src)"

definition paste :: "image \<Rightarrow> image \<Rightarrow> int \<times> int \<Rightarrow> image" where
  "paste im src box =
     im\<lparr>getpixel := (\<lambda>x y.
          if covers src box x y
          then getpixel src (nat (int x - fst box)) (nat (int y - snd box))
          else getpixel im x y)\<rparr>"

text \<open>\<^verbatim>\<open>np.array(image)\<close>: shape \<open>(height, width, 3)\<close>, row \<open>y\<close> first.\<close>

definition np_array :: "image \<Rightarrow> pixel array2" where
  "np_array im = map (\<lambda>y. map (\<lambda>x. getpixel im x y) [0..<width im]) [0..<height im]"

text \<open>
  What the scripts take from outside: \<^verbatim>\<open>Image.open\<close> (the file system and the
  decoder), \<^verbatim>\<open>Image.resize(size, Image.LANCZOS)\<close> (with \<^verbatim>\<open>convert('RGB')\<close>, which
  \<^verbatim>\<open>display_image\<close> applies to the resized image when its mode is not RGB), and the
  floating-point computation of the grid's scaled size
  \<^verbatim>\<open>scale = min(available_width / img.width, available_height / img.height);
  new_size = (int(img.width * scale), int(img.height * scale))\<close>, whose rounding is not
  that of exact arithmetic. They are parameters of the model.
\<close>

record externals =
  Image_open :: "string \<Rightarrow> error + image"
  resize :: "image \<Rightarrow> int \<times> int \<Rightarrow> error + image"
  scaled_size :: "int \<Rightarrow> int \<Rightarrow> nat \<Rightarrow> nat \<Rightarrow> int \<times> int"

record FixScreenInfo =
  id_name :: string
  smem_start :: "64 word"
  smem_len :: uint32
  type :: uint32
  type_aux :: uint32
  visual :: uint32
  xpanstep :: uint16
  ypanstep :: uint16
  ywrapstep :: uint16
  line_length :: uint32
  mmio_start :: "64 word"
  mmio_len :: uint32
  accel :: uint32
  capabilities :: uint16
  reserved :: "uint16 \<times> uint16"

text \<open>
  The framebuffer device \<^verbatim>\<open>fb_file\<close>: what its two ioctls answer (\<open>None\<close> when the
  request is rejected), which buffers \<^verbatim>\<open>open(fb_file, 'wb')\<close> followed by
  \<^verbatim>\<open>f.write\<close> accepts, and the buffers it has received, oldest first. Every write is
  made on a handle that was just opened, so it starts at offset 0. A rejected write is
  modelled as leaving the device as it was.
\<close>

record framebuffer =
  vscreeninfo :: "VarScreenInfo option"
  fscreeninfo :: "FixScreenInfo option"
  accepts :: "uint8 list \<Rightarrow> bool"
  written :: "uint8 list list"

definition get_fix_info :: "framebuffer \<Rightarrow> error + FixScreenInfo" where
  "get_fix_info fb = (case fscreeninfo fb of None \<Rightarrow> Inl OSError | Some fix_info \<Rightarrow> Inr fix_info)"

definition get_var_info :: "framebuffer \<Rightarrow> error + VarScreenInfo" where
  "get_var_info fb = (case vscreeninfo fb of None \<Rightarrow> Inl OSError | Some var_info \<Rightarrow> Inr var_info)"

text \<open>\<^verbatim>\<open>with open(fb_file, 'wb') as f: f.write(image_bytes)\<close>\<close>

definition write_framebuffer :: "uint8 list \<Rightarrow> framebuffer \<Rightarrow> (error + unit) \<times> framebuffer" where
  "write_framebuffer image_bytes fb =
     (if accepts fb image_bytes
      then (Inr (), fb\<lparr>written := written fb @ [image_bytes]\<rparr>)
      else (Inl OSError, fb))"

text \<open>
  \<^verbatim>\<open>int(a / b)\<close> for Python integers \<open>a\<close> and \<open>b \<noteq> 0\<close>: \<^verbatim>\<open>/\<close> is the correctly
  rounded floating-point quotient and \<^verbatim>\<open>int\<close> truncates it towards zero. For
  \<open>0 < b\<close> and \<open>\<bar>a\<bar> + b < 2 ^ 53\<close> the rounding never reaches the next integer, since
  a quotient that is not an integer is at least \<open>1 / b\<close> away from one and the rounding
  error is below that, so the result is the exact quotient truncated towards zero. It
  is used for the new height of \<^verbatim>\<open>nhd.py\<close>, where the dividend is the product of half a
  32-bit resolution with the height of an image that was loaded.
\<close>

definition int_truediv :: "int \<Rightarrow> int \<Rightarrow> int" where
  "int_truediv a b = sgn a * sgn b * (\<bar>a\<bar> div \<bar>b\<bar>)"

section \<open>Python numbers\<close>

text \<open>
  A Python \<^verbatim>\<open>float\<close> is an IEEE-754 double. A finite double is represented by its
  value, a rational number; the sign of a zero is not kept, since no operation below
  tells the two zeros apart. \<open>to_double\<close> rounds a rational to the nearest double,
  ties to the even significand: 53 significant bits for a normal number, multiples of
  \<open>2 ^ - 1074\<close> below \<open>2 ^ - 1022\<close>, and no double from \<open>2 ^ 1024 - 2 ^ 970\<close> on.
\<close>

definition round_half_even :: "rat \<Rightarrow> int" where
  "round_half_even x =
     (let n = \<lfloor>x\<rfloor>; r = x - of_int n
      in if r < 1 / 2 then n else if 1 / 2 < r then n + 1 else if even n then n else n + 1)"

text \<open>\<^verbatim>\<open>int.bit_length()\<close> of a positive integer.\<close>

function int_bit_length :: "int \<Rightarrow> int" where
  "int_bit_length n = (if n \<le> 0 then 0 else 1 + int_bit_length (n div 2))"
  by pat_completeness auto
termination
  by (relation "measure nat") auto

declare int_bit_length.simps [simp del]

text \<open>The exponent \<open>e\<close> with \<open>2 ^ e \<le> q < 2 ^ (e + 1)\<close>, for \<open>q > 0\<close>.\<close>

definition floor_log2 :: "rat \<Rightarrow> int" where
  "floor_log2 q =
     (case quotient_of q of (a, b) \<Rightarrow>
        let e = int_bit_length a - int_bit_length b
        in if 2 powi e \<le> q then e else e - 1)"

definition to_double :: "rat \<Rightarrow> error + rat" where
  "to_double q =
     (if q = 0 then Inr 0
      else
        let e = max (floor_log2 \<bar>q\<bar>) (- 1022);
            ulp = 2 powi (e - 52);
            r = of_int (round_half_even (q / ulp)) * ulp
        in if 2 ^ 1024 \<le> \<bar>r\<bar> then Inl OverflowError else Inr r)"

text \<open>
  The operations the scripts use. \<^verbatim>\<open>float(a)\<close> and \<^verbatim>\<open>a / b\<close> on integers are correctly
  rounded and raise \<^verbatim>\<open>OverflowError\<close> when the result is too large for a double;
  \<^verbatim>\<open>a / b\<close> raises \<^verbatim>\<open>ZeroDivisionError\<close> for \<open>b = 0\<close>. An arithmetic operation on floats
  that overflows returns an infinity instead of raising; in every expression modelled
  below the infinity then reaches \<^verbatim>\<open>int(...)\<close> unchanged, and \<^verbatim>\<open>int\<close> raises
  \<^verbatim>\<open>OverflowError\<close> on it, so the model raises that error at the operation.
  \<^verbatim>\<open>int(x)\<close> truncates towards zero.
\<close>

definition float_of_int :: "int \<Rightarrow> error + rat" where
  "float_of_int a = to_double (of_int a)"

definition int_true_divide :: "int \<Rightarrow> int \<Rightarrow> error + rat" where
  "int_true_divide a b = (if b = 0 then Inl ZeroDivisionError else to_double (of_int a / of_int b))"

definition float_mul :: "rat \<Rightarrow> rat \<Rightarrow> error + rat" where
  "float_mul x y = to_double (x * y)"

definition float_div :: "rat \<Rightarrow> rat \<Rightarrow> error + rat" where
  "float_div x y = (if y = 0 then Inl ZeroDivisionError else to_double (x / y))"

definition float_add :: "rat \<Rightarrow> rat \<Rightarrow> error + rat" where
  "float_add x y = to_double (x + y)"

definition float_sub :: "rat \<Rightarrow> rat \<Rightarrow> error + rat" where
  "float_sub x y = to_double (x - y)"

definition int_of_float :: "rat \<Rightarrow> int" where
  "int_of_float x = (if 0 \<le> x then \<lfloor>x\<rfloor> else \<lceil>x\<rceil>)"

text \<open>
  A number passed as \<^verbatim>\<open>margin_percent\<close>: a Python integer or a float, which is a
  finite double, an infinity or a NaN.
\<close>

datatype number = PyInt int | PyFloat rat | PyInf | PyNegInf | PyNaN

section \<open>botafogo.py: one image on the whole screen\<close>



section \<open>nhd.py: the same image twice, side by side\<close>

text \<open>
  \<^verbatim>\<open>new_width = var_info.xres // 2\<close> and
  \<^verbatim>\<open>new_height = int(new_width * image.height / image.width)\<close>; the division raises
  when the image has width 0.
\<close>

definition dual_new_size :: "VarScreenInfo \<Rightarrow> image \<Rightarrow> error + (int \<times> int)" where
  "dual_new_size var_info img =
     (let new_width = uint (xres var_info) div 2
      in if width img = 0 then Inl ZeroDivisionError
         else Inr (new_width, int_truediv (new_width * int (height img)) (int (width img))))"

text \<open>
  \<^verbatim>\<open>combined_image = Image.new('RGB', (var_info.xres, var_info.yres))\<close> and the two
  \<^verbatim>\<open>paste\<close> calls.
\<close>

definition dual_combined_image :: "VarScreenInfo \<Rightarrow> image \<Rightarrow> int \<Rightarrow> image" where
  "dual_combined_image var_info resized_image new_width =
     (let combined_image = Image_new (unat (xres var_info), unat (yres var_info));
          combined_image = paste combined_image resized_image (0, 0);
          combined_image = paste combined_image resized_image (new_width, 0)
      in combined_image)"

definition display_dual_images_bytes :: "externals \<Rightarrow> string \<Rightarrow> framebuffer \<Rightarrow> error + uint8 list" where
  "display_dual_images_bytes ext image_path fb =
     and_then (get_var_info fb) (\<lambda>var_info.
     and_then (get_fix_info fb) (\<lambda>fix_info.
     and_then (Image_open ext image_path) (\<lambda>img.
     and_then (dual_new_size var_info img) (\<lambda>new_size.
     and_then (resize ext img new_size) (\<lambda>resized_image.
       let combined_image = dual_combined_image var_info resized_image (fst new_size);
           image_array = np_array combined_image
       in Inr (encode var_info image_array))))))"

definition display_dual_images :: "externals \<Rightarrow> string \<Rightarrow> framebuffer \<Rightarrow> (error + unit) \<times> framebuffer" where
  "display_dual_images ext image_path fb =
     (case display_dual_images_bytes ext image_path fb of
        Inl e \<Rightarrow> (Inl e, fb)
      | Inr image_bytes \<Rightarrow> write_framebuffer image_bytes fb)"

section \<open>HousePepperCman.py: six images in a grid of three columns and two rows\<close>

text \<open>
  \<^verbatim>\<open>int(resolution * margin_percent / 100)\<close>. With an integer percentage the product is
  an integer and the division is that of two integers. With a float the resolution is
  converted (exactly, it is below \<open>2 ^ 32\<close>), the product and the quotient are rounded,
  and 100 is converted exactly. An infinite percentage gives an infinity, or a NaN when
  the resolution is 0; \<^verbatim>\<open>int\<close> raises \<^verbatim>\<open>OverflowError\<close> on the one and
  \<^verbatim>\<open>ValueError\<close> on the other.
\<close>

fun margin :: "uint32 \<Rightarrow> number \<Rightarrow> error + int" where
  "margin resolution (PyInt margin_percent) =
     and_then (int_true_divide (uint resolution * margin_percent) 100) (\<lambda>q. Inr (int_of_float q))"
| "margin resolution (PyFloat margin_percent) =
     and_then (float_mul (of_int (uint resolution)) margin_percent) (\<lambda>p.
     and_then (float_div p 100) (\<lambda>q. Inr (int_of_float q)))"
| "margin resolution PyInf = (if resolution = 0 then Inl ValueError else Inl OverflowError)"
| "margin resolution PyNegInf = (if resolution = 0 then Inl ValueError else Inl OverflowError)"
| "margin resolution PyNaN = Inl ValueError"

text \<open>
  The four values computed before the loop, under the names the script gives them;
  \<^verbatim>\<open>//\<close> rounds towards minus infinity, as \<open>div\<close> does.
\<close>

record grid =
  horizontal_margin :: int
  vertical_margin :: int
  available_width :: int
  available_height :: int

definition grid_of :: "VarScreenInfo \<Rightarrow> number \<Rightarrow> error + grid" where
  "grid_of var_info margin_percent =
     and_then (margin (xres var_info) margin_percent) (\<lambda>h_margin.
     and_then (margin (yres var_info) margin_percent) (\<lambda>v_margin.
       Inr \<lparr>horizontal_margin = h_margin, vertical_margin = v_margin,
            available_width = (uint (xres var_info) - 4 * h_margin) div 3,
            available_height = (uint (yres var_info) - 3 * v_margin) div 2\<rparr>))"

text \<open>
  The upper left corner of cell \<open>i\<close>: \<^verbatim>\<open>x_offset\<close> and \<^verbatim>\<open>y_offset\<close> before the
  image is centred in the cell.
\<close>

definition cell_origin :: "grid \<Rightarrow> nat \<Rightarrow> int \<times> int" where
  "cell_origin g i =
     (horizontal_margin g + int (i mod 3) * (available_width g + horizontal_margin g),
      vertical_margin g + int (i div 3) * (available_height g + vertical_margin g))"

text \<open>
  The loop \<^verbatim>\<open>for i, image_path in enumerate(image_paths)\<close>, from index \<open>i\<close> on; the
  layout is updated by each \<^verbatim>\<open>paste\<close>.
\<close>

fun paste_images :: "externals \<Rightarrow> grid \<Rightarrow> nat \<Rightarrow> string list \<Rightarrow> image \<Rightarrow> error + image" where
  "paste_images ext g i [] layout = Inr layout"
| "paste_images ext g i (image_path # image_paths) layout =
     and_then (Image_open ext image_path) (\<lambda>img.
       if width img = 0 \<or> height img = 0 then Inl ZeroDivisionError
       else
         let new_size = scaled_size ext (available_width g) (available_height g) (width img) (height img)
         in and_then (resize ext img new_size) (\<lambda>resized_img.
              let x_offset = fst (cell_origin g i);
                  y_offset = snd (cell_origin g i);
                  x_offset = x_offset + (available_width g - fst new_size) div 2;
                  y_offset = y_offset + (available_height g - snd new_size) div 2
              in paste_images ext g (Suc i) image_paths
                   (paste layout resized_img (x_offset, y_offset))))"

definition display_six_images_bytes ::
    "externals \<Rightarrow> string list \<Rightarrow> framebuffer \<Rightarrow> number \<Rightarrow> error + uint8 list" where
  "display_six_images_bytes ext image_paths fb margin_percent =
     (if length image_paths \<noteq> 6 then Inl ValueError
      else
        and_then (get_var_info fb) (\<lambda>var_info.
        and_then (get_fix_info fb) (\<lambda>fix_info.
        and_then (grid_of var_info margin_percent) (\<lambda>g.
          let layout = Image_new (unat (xres var_info), unat (yres var_info))
          in and_then (paste_images ext g 0 image_paths layout) (\<lambda>layout.
               let image_array = np_array layout
               in Inr (encode var_info image_array))))))"

definition display_six_images ::
    "externals \<Rightarrow> string list \<Rightarrow> framebuffer \<Rightarrow> number \<Rightarrow> (error + unit) \<times> framebuffer" where
  "display_six_images ext image_paths fb margin_percent =
     (case display_six_images_bytes ext image_paths fb margin_percent of
        Inl e \<Rightarrow> (Inl e, fb)
      | Inr image_bytes \<Rightarrow> write_framebuffer image_bytes fb)"

section \<open>animate-single-image.py: one image on a circle\<close>

text \<open>
  What one pass of the loop of \<^verbatim>\<open>animate_image\<close> does at the elapsed time \<open>t\<close>, which
  the script reads from the wall clock (\<^verbatim>\<open>t = time.time() - start_time\<close>). The image
  \<^verbatim>\<open>img_resized\<close> and the size \<^verbatim>\<open>new_size\<close> it was resized to come from the set-up
  before the loop. The cosine and the sine are those of the C library and are
  parameters of the model.
\<close>

record libm =
  math_cos :: "rat \<Rightarrow> rat"
  math_sin :: "rat \<Rightarrow> rat"

text \<open>\<^verbatim>\<open>math.pi\<close>, and \<^verbatim>\<open>angular_speed = 2 * math.pi / 5\<close>.\<close>

definition math_pi :: rat where
  "math_pi = 884279719003555 / 281474976710656"

definition angular_speed :: "error + rat" where
  "angular_speed = and_then (float_mul 2 math_pi) (\<lambda>p. float_div p 5)"

text \<open>
  \<^verbatim>\<open>int(center + radius * c - size / 2)\<close>, where \<open>c\<close> is the cosine or the sine of the
  angle: the product, the sum with the centre (an integer below \<open>2 ^ 31\<close>, converted
  exactly), the quotient of two integers and the difference are each rounded.
\<close>

definition anchor_coordinate :: "int \<Rightarrow> rat \<Rightarrow> rat \<Rightarrow> int \<Rightarrow> error + int" where
  "anchor_coordinate center radius c sz =
     and_then (float_mul radius c) (\<lambda>p.
     and_then (float_add (of_int center) p) (\<lambda>s.
     and_then (int_true_divide sz 2) (\<lambda>half.
     and_then (float_sub s half) (\<lambda>d. Inr (int_of_float d)))))"

text \<open>
  The anchor \<open>(x, y)\<close> at the elapsed time \<open>t\<close>. When \<^verbatim>\<open>t * angular_speed\<close> overflows,
  the angle is an infinity and \<^verbatim>\<open>math.cos\<close> raises \<^verbatim>\<open>ValueError\<close>.
\<close>

definition orbit_anchor :: "libm \<Rightarrow> VarScreenInfo \<Rightarrow> int \<times> int \<Rightarrow> rat \<Rightarrow> error + (int \<times> int)" where
  "orbit_anchor math var_info new_size t =
     (let center_x = uint (xres var_info) div 2;
          center_y = uint (yres var_info) div 2
      in and_then (float_mul (of_int (min (uint (xres var_info)) (uint (yres var_info)))) (1 / 4)) (\<lambda>radius.
         and_then angular_speed (\<lambda>speed.
         and_then (case float_mul t speed of Inl e \<Rightarrow> Inl ValueError | Inr angle \<Rightarrow> Inr angle) (\<lambda>angle.
         and_then (anchor_coordinate center_x radius (math_cos math angle) (fst new_size)) (\<lambda>x.
         and_then (anchor_coordinate center_y radius (math_sin math angle) (snd new_size)) (\<lambda>y.
           Inr (x, y)))))))"

text \<open>
  The frame of that pass: a copy of the black canvas with the resized image pasted at
  the anchor, encoded, and then written.
\<close>

definition animate_frame_bytes ::
    "libm \<Rightarrow> VarScreenInfo \<Rightarrow> image \<Rightarrow> int \<times> int \<Rightarrow> rat \<Rightarrow> error + uint8 list" where
  "animate_frame_bytes math var_info img_resized new_size t =
     and_then (orbit_anchor math var_info new_size t) (\<lambda>anchor.
       let canvas = Image_new (unat (xres var_info), unat (yres var_info));
           frame = paste canvas img_resized anchor;
           frame_array = np_array frame
       in Inr (encode var_info frame_array))"

definition animate_frame ::
    "libm \<Rightarrow> VarScreenInfo \<Rightarrow> image \<Rightarrow> int \<times> int \<Rightarrow> rat \<Rightarrow> framebuffer \<Rightarrow> (error + unit) \<times> framebuffer" where
  "animate_frame math var_info img_resized new_size t fb =
     (case animate_frame_bytes math var_info img_resized new_size t of
        Inl e \<Rightarrow> (Inl e, fb)
      | Inr frame_bytes \<Rightarrow> write_framebuffer frame_bytes fb)"

section \<open>Example devices\<close>

text \<open>
  A variable screen descriptor with the given resolution, depth and colour fields; the
  virtual resolution equals the visible one and the panning offsets are 0.
\<close>

definition screen_mode ::
    "uint32 \<Rightarrow> uint32 \<Rightarrow> uint32 \<Rightarrow> uint32x3 \<Rightarrow> uint32x3 \<Rightarrow> uint32x3 \<Rightarrow> uint32x3 \<Rightarrow> VarScreenInfo" where
  "screen_mode x y bpp r g b t =
     \<lparr>xres = x, yres = y, xres_virtual = x, yres_virtual = y, xoffset = 0, yoffset = 0,
      bits_per_pixel = bpp, grayscale = 0, red = r, green = g, blue = b, transp = t\<rparr>"

text \<open>An image of one colour, a fixed descriptor, and a device that accepts every write.\<close>

definition solid_image :: "nat \<Rightarrow> nat \<Rightarrow> pixel \<Rightarrow> image" where
  "solid_image w h p = \<lparr>width = w, height = h, getpixel = (\<lambda>x y. p)\<rparr>"

definition example_fix_info :: FixScreenInfo where
  "example_fix_info =
     \<lparr>id_name = ''fb'', smem_start = 0, smem_len = 0, type = 0, type_aux = 0, visual = 0,
      xpanstep = 0, ypanstep = 0, ywrapstep = 0, line_length = 0, mmio_start = 0,
      mmio_len = 0, accel = 0, capabilities = 0, reserved = (0, 0)\<rparr>"

definition example_framebuffer :: "VarScreenInfo \<Rightarrow> framebuffer" where
  "example_framebuffer var_info =
     \<lparr>vscreeninfo = Some var_info, fscreeninfo = Some example_fix_info,
      accepts = (\<lambda>image_bytes. True), written = []\<rparr>"

text \<open>
  An instance of the external operations: every path opens as the given image; a resize
  to a size with a side below 1 raises \<^verbatim>\<open>ValueError\<close>, as PIL does, and otherwise keeps
  the pixel function and sets the size, which is exact on an image of one colour; the
  scaled size is computed in exact arithmetic.
\<close>

definition example_externals :: "image \<Rightarrow> externals" where
  "example_externals img =
     \<lparr>Image_open = (\<lambda>image_path. Inr img),
      resize = (\<lambda>im sz. if fst sz < 1 \<or> snd sz < 1 then Inl ValueError
                         else Inr (im\<lparr>width := nat (fst sz), height := nat (snd sz)\<rparr>)),
      scaled_size = (\<lambda>aw ah w h.
         if aw * int h \<le> ah * int w
         then (aw, int_truediv (int h * aw) (int w))
         else (int_truediv (int w * ah) (int h), ah))\<rparr>"

text \<open>
  An instance of the C library's functions that is right at the angle 0, where
  \<^verbatim>\<open>math.cos\<close> returns exactly 1 and \<^verbatim>\<open>math.sin\<close> exactly 0.
\<close>

definition example_libm :: libm where
  "example_libm = \<lparr>math_cos = (\<lambda>angle. 1), math_sin = (\<lambda>angle. 0)\<rparr>"

section \<open>Decoding\<close>

text \<open>
  Modelled from the spec: the repository has no decoder. The round-trip property of the
  spec reads a buffer back "under the same channel-layout rule". For 32 bits the rule of
  the spec is that the bytes are in the order B, G, R exactly when the blue channel's
  bit offset is 0; the decoder drops the alpha byte and reverses the three channels
  under that rule. For 16 bits the word is read from its two little-endian bytes and
  the fields are taken from the positions the spec gives them; the spec bounds the
  quantisation error by 4 per channel, which fixes the value a field is read back as to
  the middle of the values that the encoder maps to it: \<open>r = (r5 << 3) + 4\<close>,
  \<open>g = (g6 << 2) + 2\<close>, \<open>b = (b5 << 3) + 4\<close>.
\<close>

fun decode32 :: "VarScreenInfo \<Rightarrow> uint8 list \<Rightarrow> pixel list" where
  "decode32 var_info (c0 # c1 # c2 # a # image_bytes) =
     (if bit_offset (blue var_info) = 0 then (c2, c1, c0) else (c0, c1, c2))
       # decode32 var_info image_bytes"
| "decode32 var_info image_bytes = []"

definition frombytes_uint16 :: "uint8 \<Rightarrow> uint8 \<Rightarrow> uint16" where
  "frombytes_uint16 lo hi = ucast lo OR push_bit 8 (ucast hi)"

definition unpack565 :: "uint16 \<Rightarrow> pixel" where
  "unpack565 word =
     (push_bit 3 (ucast (drop_bit 11 word)) + 4,
      push_bit 2 (ucast (take_bit 6 (drop_bit 5 word))) + 2,
      push_bit 3 (ucast (take_bit 5 word)) + 4)"

fun decode16 :: "uint8 list \<Rightarrow> pixel list" where
  "decode16 (lo # hi # image_bytes) = unpack565 (frombytes_uint16 lo hi) # decode16 image_bytes"
| "decode16 image_bytes = []"

text \<open>
  Two pixels agree within \<open>d\<close> when each channel of the second differs from that of the
  first by at most \<open>d\<close>.
\<close>

fun agree_within :: "nat \<Rightarrow> pixel \<Rightarrow> pixel \<Rightarrow> bool" where
  "agree_within d (r, g, b) (r', g', b') \<longleftrightarrow>
     \<bar>int (unat r) - int (unat r')\<bar> \<le> int d \<and>
     \<bar>int (unat g) - int (unat g')\<bar> \<le> int d \<and>
     \<bar>int (unat b) - int (unat b')\<bar> \<le> int d"

section \<open>Grid cells\<close>

text \<open>
  Cell \<open>i\<close> of the grid is the rectangle of the available width and height whose upper
  left corner is the cell's origin; \<open>in_cell\<close> tells whether a point lies in it.
\<close>

definition in_cell :: "grid \<Rightarrow> nat \<Rightarrow> int \<times> int \<Rightarrow> bool" where
  "in_cell g i p \<longleftrightarrow>
     fst (cell_origin g i) \<le> fst p \<and> fst p < fst (cell_origin g i) + available_width g \<and>
     snd (cell_origin g i) \<le> snd p \<and> snd p < snd (cell_origin g i) + available_height g"

section \<open>Lists of blocks of equal length\<close>


lemma length_concat_uniform:
  "\<forall>xs\<in>set xss. length xs = k \<Longrightarrow> length (concat xss) = k * length xss"
  by (induction xss) auto

lemma nth_concat_uniform:
  "\<forall>xs\<in>set xss. length xs = k \<Longrightarrow> i < length xss \<Longrightarrow> j < k \<Longrightarrow>
   concat xss ! (i * k + j) = xss ! i ! j"
proof (induction xss arbitrary: i)
  case Nil
  then show ?case by simp
next
  case (Cons xs xss)
  show ?case
  proof (cases i)
    case 0
    with Cons.prems show ?thesis by (simp add: nth_append)
  next
    case (Suc i')
    with Cons.prems have "concat xss ! (i' * k + j) = xss ! i' ! j"
      by (intro Cons.IH) auto
    with Suc Cons.prems show ?thesis by (simp add: nth_append)
  qed
qed

section \<open>The RGB565 word\<close>

text \<open>The three fields of the word, and the word as a number.\<close>

lemma rgb565_fields:
  "drop_bit 11 (rgb565 (r, g, b)) = ucast (drop_bit 3 r)"
  "take_bit 6 (drop_bit 5 (rgb565 (r, g, b))) = ucast (drop_bit 2 g)"
  "take_bit 5 (rgb565 (r, g, b)) = ucast (drop_bit 3 b)"
  by (rule bit_word_eqI; auto simp: bit_simps Let_def dest: bit_imp_le_length)+

lemma unat_drop_bit_div: "unat (drop_bit n (x::'a::len word)) = unat x div 2 ^ n"
  by (subst unat_drop_bit_eq) (rule drop_bit_eq_div)

lemma unat_take_bit_mod: "unat (take_bit n (x::'a::len word)) = unat x mod 2 ^ n"
  by (subst unsigned_take_bit_eq) (rule take_bit_eq_mod)

lemma unat_uint8_less: "unat (x::uint8) < 256"
  using unsigned_less [of x, where 'a = nat] by simp

lemma unat_uint16_less: "unat (x::uint16) < 65536"
  using unsigned_less [of x, where 'a = nat] by simp

lemma unat_ucast_8_16: "unat (ucast (x::uint8) :: uint16) = unat x"
  using unat_uint8_less [of x] by (simp add: unsigned_ucast_eq take_bit_eq_mod)

lemma unat_ucast_16_8: "unat (ucast (x::uint16) :: uint8) = unat x mod 256"
  by (simp add: unsigned_ucast_eq take_bit_eq_mod)

lemma unat_fields16:
  "unat (w::uint16) = 2048 * unat (drop_bit 11 w) + 32 * unat (take_bit 6 (drop_bit 5 w)) + unat (take_bit 5 w)"
proof -
  have "unat w mod 2048 = 32 * (unat w div 32 mod 64) + unat w mod 32"
    using mod_mult2_eq [of "unat w" 32 64] by simp
  moreover have "unat w = 2048 * (unat w div 2048) + unat w mod 2048"
    by simp
  moreover have "unat (drop_bit 11 w) = unat w div 2048"
    by (simp add: unat_drop_bit_div)
  moreover have "unat (take_bit 6 (drop_bit 5 w)) = unat w div 32 mod 64"
    by (simp add: unat_take_bit_mod unat_drop_bit_div)
  moreover have "unat (take_bit 5 w) = unat w mod 32"
    by (simp add: unat_take_bit_mod)
  ultimately show ?thesis by linarith
qed

lemma rgb565_unat:
  "unat (rgb565 (r, g, b)) = 2048 * (unat r div 8) + 32 * (unat g div 4) + unat b div 8"
  using unat_fields16 [of "rgb565 (r, g, b)"]
  by (simp only: rgb565_fields unat_ucast_8_16 unat_drop_bit_div) simp

lemma unat_tobytes_uint16:
  "map unat (tobytes_uint16 w) = [unat w mod 256, unat w div 256]"
  using unat_uint16_less [of w]
  by (simp add: tobytes_uint16_def unat_ucast_16_8 unat_drop_bit_div)


section \<open>The flattened buffer\<close>

lemma flatten_tobytes_concat:
  "flatten_tobytes f a = concat (map f (concat a))"
  by (induction a) (simp_all add: flatten_tobytes_def)

lemma length_concat_map_uniform:
  "(\<And>p. length (f p) = k) \<Longrightarrow> length (concat (map f row)) = k * length row"
  by (induction row) simp_all

lemma length_flatten_tobytes:
  assumes "\<forall>row\<in>set a. length row = w" and "\<And>p. length (f p) = k"
  shows "length (flatten_tobytes f a) = k * w * length a"
proof -
  have "\<forall>bs\<in>set (map (\<lambda>row. concat (map f row)) a). length bs = k * w"
    using assms by (simp add: length_concat_map_uniform)
  then have "length (concat (map (\<lambda>row. concat (map f row)) a)) = k * w * length a"
    using length_concat_uniform [of "map (\<lambda>row. concat (map f row)) a" "k * w"] by simp
  then show ?thesis by (simp add: flatten_tobytes_def)
qed

lemma nth_flatten_tobytes:
  assumes rows: "\<forall>row\<in>set a. length row = w" and len: "\<And>p. length (f p) = k"
    and y: "y < length a" and x: "x < w" and j: "j < k"
  shows "flatten_tobytes f a ! (k * (y * w + x) + j) = f (a ! y ! x) ! j"
proof -
  let ?rows = "map (\<lambda>row. concat (map f row)) a"
  have uniform: "\<forall>bs\<in>set ?rows. length bs = w * k"
    using rows len by (simp add: length_concat_map_uniform)
  have row: "length (a ! y) = w"
    using rows y by simp
  have inner: "x * k + j < w * k"
  proof -
    have "x * k + j < Suc x * k" using j by simp
    also have "\<dots> \<le> w * k" using x by (intro mult_le_mono1) simp
    finally show ?thesis .
  qed
  have "concat ?rows ! (y * (w * k) + (x * k + j)) = ?rows ! y ! (x * k + j)"
    using uniform y inner by (intro nth_concat_uniform) simp_all
  also have "\<dots> = concat (map f (a ! y)) ! (x * k + j)"
    using y by simp
  also have "\<dots> = map f (a ! y) ! x ! j"
    using len row x j by (intro nth_concat_uniform) simp_all
  also have "\<dots> = f (a ! y ! x) ! j"
    using row x by simp
  finally have "concat ?rows ! (y * (w * k) + (x * k + j)) = f (a ! y ! x) ! j" .
  moreover have "y * (w * k) + (x * k + j) = k * (y * w + x) + j"
    by (simp add: algebra_simps)
  ultimately show ?thesis by (simp add: flatten_tobytes_def)
qed

lemma length_insert_alpha: "length (insert_alpha p) = 4"
  by (cases p) simp


lemma length_tobytes_uint16: "length (tobytes_uint16 w) = 2"
  by (simp add: tobytes_uint16_def)

text \<open>
  Claim C2. On a 16-bit device, for an RGB frame of \<open>h\<close> rows of \<open>w\<close> pixels, the encoded
  buffer has exactly \<open>2 * w * h\<close> bytes, and the pixel in row \<open>y\<close>, column \<open>x\<close> occupies
  the two bytes at \<open>2 * (y * w + x)\<close>: the low byte, then the high byte, of the word
  \<open>((r >> 3) << 11) | ((g >> 2) << 5) | (b >> 3)\<close>, whose value is
  \<open>2048 * \<lfloor>r / 8\<rfloor> + 32 * \<lfloor>g / 4\<rfloor> + \<lfloor>b / 8\<rfloor>\<close>: the shifts truncate, they do not round.
\<close>

theorem encode_16bit:
  assumes "bits_per_pixel var_info = 16"
    and "length image_array = h" and "\<forall>row\<in>set image_array. length row = w"
  shows "length (encode var_info image_array) = 2 * w * h \<and>
    (\<forall>y<h. \<forall>x<w. case image_array ! y ! x of (r, g, b) \<Rightarrow>
       let word = (push_bit 11 (ucast (drop_bit 3 r)) OR push_bit 5 (ucast (drop_bit 2 g))
                     OR ucast (drop_bit 3 b) :: uint16)
       in encode var_info image_array ! (2 * (y * w + x)) = ucast word \<and>
          encode var_info image_array ! (2 * (y * w + x) + 1) = ucast (drop_bit 8 word) \<and>
          unat word = 2048 * (unat r div 8) + 32 * (unat g div 4) + unat b div 8)"
proof -
  let ?a = "map (map rgb565) image_array"
  have enc: "encode var_info image_array = flatten_tobytes tobytes_uint16 ?a"
    using assms(1) by (simp add: encode_def)
  have rows: "\<forall>row\<in>set ?a. length row = w"
    using assms(3) by simp
  have len: "length (encode var_info image_array) = 2 * w * h"
    using length_flatten_tobytes [OF rows length_tobytes_uint16] assms(2) by (simp add: enc)
  have px: "case image_array ! y ! x of (r, g, b) \<Rightarrow>
       let word = (push_bit 11 (ucast (drop_bit 3 r)) OR push_bit 5 (ucast (drop_bit 2 g))
                     OR ucast (drop_bit 3 b) :: uint16)
       in encode var_info image_array ! (2 * (y * w + x)) = ucast word \<and>
          encode var_info image_array ! (2 * (y * w + x) + 1) = ucast (drop_bit 8 word) \<and>
          unat word = 2048 * (unat r div 8) + 32 * (unat g div 4) + unat b div 8"
    if "y < h" "x < w" for y x
  proof -
    obtain r g b where p: "image_array ! y ! x = (r, g, b)"
      by (cases "image_array ! y ! x")
    have y: "y < length ?a" using that assms(2) by simp
    have "?a ! y ! x = rgb565 (image_array ! y ! x)"
      using that assms(2,3) by simp
    then have el: "?a ! y ! x = rgb565 (r, g, b)"
      by (simp only: p)
    have word: "push_bit 11 (ucast (drop_bit 3 r)) OR push_bit 5 (ucast (drop_bit 2 g))
                  OR ucast (drop_bit 3 b) = rgb565 (r, g, b)"
      by (simp add: Let_def)
    have "flatten_tobytes tobytes_uint16 ?a ! (2 * (y * w + x) + 0) = tobytes_uint16 (?a ! y ! x) ! 0"
      by (rule nth_flatten_tobytes [OF rows length_tobytes_uint16 y that(2)]) simp
    then have b0: "encode var_info image_array ! (2 * (y * w + x)) = ucast (rgb565 (r, g, b))"
      by (simp only: enc el tobytes_uint16_def nth_Cons_0 add_0_right)
    have "flatten_tobytes tobytes_uint16 ?a ! (2 * (y * w + x) + 1) = tobytes_uint16 (?a ! y ! x) ! 1"
      by (rule nth_flatten_tobytes [OF rows length_tobytes_uint16 y that(2)]) simp
    then have b1: "encode var_info image_array ! (2 * (y * w + x) + 1) = ucast (drop_bit 8 (rgb565 (r, g, b)))"
      by (simp only: enc el tobytes_uint16_def One_nat_def nth_Cons_Suc nth_Cons_0)
    show ?thesis
      unfolding p prod.case Let_def word
      using b0 b1 rgb565_unat [of r g b] by (intro conjI)
  qed
  show ?thesis
    using len px by (intro conjI allI impI)
qed


theorem encode_16bit_witness:
  "bits_per_pixel (screen_mode 1 1 16 (11, 5, 0) (5, 6, 0) (0, 5, 0) (0, 0, 0)) = 16 \<and>
   length [[(255, 128, 8) :: pixel]] = 1 \<and> list_all (\<lambda>row. length row = 1) [[(255, 128, 8) :: pixel]] \<and>
   length (encode (screen_mode 1 1 16 (11, 5, 0) (5, 6, 0) (0, 5, 0) (0, 0, 0)) [[(255, 128, 8)]]) = 2 \<and>
   encode (screen_mode 1 1 16 (11, 5, 0) (5, 6, 0) (0, 5, 0) (0, 0, 0)) [[(255, 128, 8)]] ! 0 = 1 \<and>
   encode (screen_mode 1 1 16 (11, 5, 0) (5, 6, 0) (0, 5, 0) (0, 0, 0)) [[(255, 128, 8)]] ! 1 = 252"
  using encode_16bit [of "screen_mode 1 1 16 (11, 5, 0) (5, 6, 0) (0, 5, 0) (0, 0, 0)" "[[(255, 128, 8)]]" 1 1]
  by (simp add: screen_mode_def)

text \<open>
  What the 32-bit branch does for any frame: four bytes per pixel, the fourth 255, the
  first three reversed exactly when the third word of the blue field is 0.
\<close>

lemma encode_32bit_layout:
  assumes "bits_per_pixel var_info = 32"
    and "length image_array = h" and "\<forall>row\<in>set image_array. length row = w"
    and "y < h" and "x < w" and "image_array ! y ! x = (r, g, b)"
  shows "length (encode var_info image_array) = 4 * w * h"
    and "map (\<lambda>j. encode var_info image_array ! (4 * (y * w + x) + j)) [0, 1, 2, 3] =
           (if at2 (blue var_info) = 0 then [b, g, r, 255] else [r, g, b, 255])"
proof -
  let ?a = "if at2 (blue var_info) = 0 then map (map reverse_channels) image_array else image_array"
  have enc: "encode var_info image_array = flatten_tobytes insert_alpha ?a"
    using assms(1) by (simp add: encode_def)
  have rows: "\<forall>row\<in>set ?a. length row = w"
    using assms(3) by simp
  have y: "y < length ?a" using assms(2,4) by simp
  show "length (encode var_info image_array) = 4 * w * h"
    using length_flatten_tobytes [OF rows length_insert_alpha] assms(2) by (simp add: enc)
  have el: "?a ! y ! x = (if at2 (blue var_info) = 0 then (b, g, r) else (r, g, b))"
    using assms(2-6) by simp
  have "flatten_tobytes insert_alpha ?a ! (4 * (y * w + x) + j) = insert_alpha (?a ! y ! x) ! j"
    if "j < 4" for j
    by (rule nth_flatten_tobytes [OF rows length_insert_alpha y assms(5) that])
  then have "encode var_info image_array ! (4 * (y * w + x) + j) =
      insert_alpha (if at2 (blue var_info) = 0 then (b, g, r) else (r, g, b)) ! j" if "j < 4" for j
    using that by (simp only: enc el)
  from this [of 0] this [of 1] this [of 2] this [of 3]
  show "map (\<lambda>j. encode var_info image_array ! (4 * (y * w + x) + j)) [0, 1, 2, 3] =
           (if at2 (blue var_info) = 0 then [b, g, r, 255] else [r, g, b, 255])"
    by simp
qed

text \<open>
  Claim C1. The claim is that a 32-bit frame is reversed to BGR exactly when the blue
  channel's bit offset is 0. The scripts test \<^verbatim>\<open>var_info.blue[2]\<close>, the third word of the
  blue field, which is the kernel's \<^verbatim>\<open>msb_right\<close> flag and not the offset (the first
  word). On a device whose blue channel sits at bit offset 16 (red at 0, so the bytes in
  memory are R, G, B, X) with the usual \<^verbatim>\<open>msb_right = 0\<close>, the frame is reversed to BGR all
  the same. The alpha byte 255 is the fourth byte of the pixel, as claimed.
\<close>

theorem encode_blue_offset_16:
  "bit_offset (blue (screen_mode 1 1 32 (0, 8, 0) (8, 8, 0) (16, 8, 0) (24, 8, 0))) = 16 \<and>
   encode (screen_mode 1 1 32 (0, 8, 0) (8, 8, 0) (16, 8, 0) (24, 8, 0)) [[(1, 2, 3)]] = [3, 2, 1, 255]"
  by (simp add: screen_mode_def bit_offset_def encode_def flatten_tobytes_def)

section \<open>Depths other than 16 and 32\<close>



lemma nth_np_array: "y < height im \<Longrightarrow> x < width im \<Longrightarrow> np_array im ! y ! x = getpixel im x y"
  by (simp add: np_array_def)




section \<open>Rounding to a double\<close>

lemma int_bit_length_bounds:
  "0 < n \<Longrightarrow> 0 < int_bit_length n \<and> 2 ^ nat (int_bit_length n - 1) \<le> n \<and> n < 2 ^ nat (int_bit_length n)"
proof (induction n rule: int_bit_length.induct)
  case (1 n)
  show ?case
  proof (cases "n = 1")
    case True
    then show ?thesis
      by (simp add: int_bit_length.simps [of 1] int_bit_length.simps [of 0])
  next
    case False
    with "1.prems" have half: "0 < n div 2" by simp
    let ?l = "int_bit_length (n div 2)"
    from "1.IH" "1.prems" half
    have l: "0 < ?l" and lo: "2 ^ nat (?l - 1) \<le> n div 2" and hi: "n div 2 < 2 ^ nat ?l"
      by simp_all
    have len: "int_bit_length n = 1 + ?l"
      using "1.prems" by (simp add: int_bit_length.simps [of n])
    have exp: "nat ?l = Suc (nat (?l - 1))"
      using l by simp
    have "2 ^ nat ?l \<le> 2 * (n div 2)"
      using lo by (simp add: exp)
    also have "\<dots> \<le> n" by simp
    finally have lo': "2 ^ nat (int_bit_length n - 1) \<le> n"
      by (simp add: len)
    have "n < 2 * (n div 2 + 1)" by simp
    also have "\<dots> \<le> 2 * 2 ^ nat ?l"
      using hi by simp
    also have "\<dots> = 2 ^ nat (int_bit_length n)"
      using l by (simp add: len nat_add_distrib)
    finally have hi': "n < 2 ^ nat (int_bit_length n)" .
    from l lo' hi' show ?thesis
      by (simp add: len)
  qed
qed

lemma int_bit_length_powi:
  assumes "0 < n"
  shows "(2::rat) powi (int_bit_length n - 1) \<le> of_int n" and "of_int n < (2::rat) powi int_bit_length n"
proof -
  from int_bit_length_bounds [OF assms]
  have l: "0 < int_bit_length n" and lo: "2 ^ nat (int_bit_length n - 1) \<le> n"
    and hi: "n < 2 ^ nat (int_bit_length n)"
    by simp_all
  have "(2::rat) powi (int_bit_length n - 1) = 2 ^ nat (int_bit_length n - 1)"
    using l by (simp add: power_int_def)
  also have "\<dots> = of_int (2 ^ nat (int_bit_length n - 1))" by simp
  also have "\<dots> \<le> of_int n" using lo by (simp only: of_int_le_iff)
  finally show "(2::rat) powi (int_bit_length n - 1) \<le> of_int n" .
  have "(of_int n :: rat) < of_int (2 ^ nat (int_bit_length n))"
    using hi by (simp only: of_int_less_iff)
  also have "\<dots> = 2 powi int_bit_length n"
    using l by (simp add: power_int_def)
  finally show "of_int n < (2::rat) powi int_bit_length n" .
qed

lemma floor_log2_bounds:
  assumes "0 < q"
  shows "2 powi floor_log2 q \<le> q" and "q < 2 powi (floor_log2 q + 1)"
proof -
  obtain a b where ab: "quotient_of q = (a, b)" by (cases "quotient_of q")
  have b: "0 < b" by (rule quotient_of_denom_pos [OF ab])
  have q: "q = of_int a / of_int b" by (rule quotient_of_div [OF ab])
  have a: "0 < a"
    using assms b by (simp add: q zero_less_divide_iff)
  let ?e = "int_bit_length a - int_bit_length b"
  note la = int_bit_length_powi [OF a] and lb = int_bit_length_powi [OF b]
  have pos: "0 < (2::rat) powi k" for k by simp
  have upper: "q < 2 powi (?e + 1)"
  proof -
    have "of_int a * (2::rat) powi (int_bit_length b - 1) < 2 powi int_bit_length a * of_int b"
      using la(2) lb(1) a b pos [of "int_bit_length b - 1"]
      by (intro mult_less_le_imp_less) simp_all
    then have "q * 2 powi (int_bit_length b - 1) < 2 powi int_bit_length a"
      using b by (simp add: q field_simps)
    then have "q < 2 powi int_bit_length a / 2 powi (int_bit_length b - 1)"
      using pos [of "int_bit_length b - 1"] by (simp add: field_simps)
    also have "\<dots> = 2 powi (int_bit_length a - (int_bit_length b - 1))"
      by (simp add: power_int_diff)
    finally show ?thesis by (simp add: algebra_simps)
  qed
  have lower: "2 powi (?e - 1) \<le> q"
  proof -
    have "(2::rat) powi (int_bit_length a - 1) * of_int b \<le> of_int a * of_int b"
      using la(1) b by (simp add: mult_right_mono)
    also have "\<dots> \<le> of_int a * 2 powi int_bit_length b"
      using lb(2) a by (simp add: mult_left_mono)
    finally have "(2::rat) powi (int_bit_length a - 1) * of_int b \<le> of_int a * 2 powi int_bit_length b" .
    then have "(2::rat) powi (int_bit_length a - 1) \<le> q * 2 powi int_bit_length b"
      using b by (simp add: q field_simps)
    then have "(2::rat) powi (int_bit_length a - 1) / 2 powi int_bit_length b \<le> q"
      using pos [of "int_bit_length b"] by (simp add: field_simps)
    moreover have "(2::rat) powi (int_bit_length a - 1) / 2 powi int_bit_length b = 2 powi (?e - 1)"
      by (simp add: power_int_diff [symmetric] algebra_simps)
    ultimately show ?thesis by simp
  qed
  have fl: "floor_log2 q = (if 2 powi ?e \<le> q then ?e else ?e - 1)"
    by (simp add: floor_log2_def ab Let_def)
  show "2 powi floor_log2 q \<le> q"
    using lower by (simp add: fl)
  show "q < 2 powi (floor_log2 q + 1)"
    using upper by (auto simp: fl not_le)
qed

lemma floor_log2_le:
  assumes "0 < q" and "q < 2 powi k"
  shows "floor_log2 q < k"
proof (rule ccontr)
  assume "\<not> floor_log2 q < k"
  then have "(2::rat) powi k \<le> 2 powi floor_log2 q"
    by (intro power_int_increasing) simp_all
  with floor_log2_bounds(1) [OF assms(1)] assms(2) show False by simp
qed

lemma floor_log2_ge:
  assumes "0 < q" and "2 powi k \<le> q"
  shows "k \<le> floor_log2 q"
proof (rule ccontr)
  assume "\<not> k \<le> floor_log2 q"
  then have "(2::rat) powi (floor_log2 q + 1) \<le> 2 powi k"
    by (intro power_int_increasing) simp_all
  with floor_log2_bounds(2) [OF assms(1)] assms(2) show False by simp
qed

lemma round_half_even_of_int: "round_half_even (of_int z) = z"
  by (simp add: round_half_even_def)

lemma round_half_even_ge_floor: "\<lfloor>x\<rfloor> \<le> round_half_even x"
  by (simp add: round_half_even_def Let_def)

lemma round_half_even_le: "of_int (round_half_even x) \<le> x + 1 / 2"
proof -
  define n where "n = \<lfloor>x\<rfloor>"
  have n: "of_int n \<le> x" "x < of_int n + 1"
    unfolding n_def by linarith+
  have "round_half_even x = n \<and> x - of_int n \<le> 1 / 2 \<or> round_half_even x = n + 1 \<and> 1 / 2 \<le> x - of_int n"
    unfolding round_half_even_def Let_def n_def [symmetric] by auto
  with n show ?thesis by auto
qed

lemma to_double_dyadic:
  assumes n: "\<bar>n\<bar> < 2 ^ 53" and j: "j \<le> 1022"
  shows "to_double (of_int n / 2 ^ j) = Inr (of_int n / 2 ^ j)"
proof (cases "n = 0")
  case True
  then show ?thesis by (simp add: to_double_def)
next
  case False
  define q :: rat where "q = of_int n / 2 ^ j"
  have absq: "\<bar>q\<bar> = of_int \<bar>n\<bar> / 2 ^ j"
    by (simp add: q_def)
  have pos: "0 < \<bar>q\<bar>"
    using False by (simp add: q_def)
  have "(1::rat) \<le> of_int \<bar>n\<bar>"
    using False by (simp flip: of_int_abs add: abs_if)
  then have lo: "2 powi (- int j) \<le> \<bar>q\<bar>"
    by (simp add: absq power_int_minus_divide divide_right_mono)
  have "(of_int \<bar>n\<bar> :: rat) < of_int (2 ^ 53)"
    using n by (simp only: of_int_less_iff)
  then have "\<bar>q\<bar> < 2 ^ 53 / 2 ^ j"
    by (simp add: absq divide_strict_right_mono)
  also have "\<dots> = 2 powi (53 - int j)"
    by (simp add: power_int_diff)
  finally have hi: "\<bar>q\<bar> < 2 powi (53 - int j)" .
  define e where "e = floor_log2 \<bar>q\<bar>"
  have e_lo: "- int j \<le> e"
    unfolding e_def by (rule floor_log2_ge [OF pos lo])
  have e_hi: "e < 53 - int j"
    unfolding e_def by (rule floor_log2_le [OF pos hi])
  have emax: "max e (- 1022) = e"
    using e_lo j by simp
  define k where "k = nat (52 - e - int j)"
  have k: "int k = 52 - e - int j"
    using e_hi by (simp add: k_def)
  have "q / 2 powi (e - 52) = of_int n * (2 powi (52 - e) / 2 ^ j)"
    by (simp add: q_def power_int_diff field_simps)
  also have "2 powi (52 - e) / 2 ^ j = (2::rat) powi (52 - e - int j)"
    by (simp add: power_int_diff [of 2 "52 - e" "int j"])
  also have "\<dots> = 2 ^ k"
    by (simp flip: k)
  finally have scaled: "q / 2 powi (e - 52) = of_int (n * 2 ^ k)"
    by simp
  have "of_int (n * 2 ^ k) * 2 powi (e - 52) = q / 2 powi (e - 52) * 2 powi (e - 52)"
    by (simp only: scaled)
  also have "\<dots> = q"
    by simp
  finally have "of_int (n * 2 ^ k) * 2 powi (e - 52) = q" .
  moreover have "\<not> 2 ^ 1024 \<le> \<bar>q\<bar>"
  proof -
    have "\<bar>q\<bar> \<le> of_int \<bar>n\<bar>"
      by (simp add: absq divide_le_eq_1 mult_le_cancel_left1 pos_divide_le_eq)
    also have "\<dots> < of_int (2 ^ 53)"
      using n by (simp only: of_int_less_iff)
    also have "\<dots> \<le> (2::rat) ^ 1024"
      by simp
    finally show ?thesis by simp
  qed
  moreover have "round_half_even (of_int n * 2 ^ k) = n * 2 ^ k"
    using round_half_even_of_int [of "n * 2 ^ k"] by simp
  ultimately have "to_double q = Inr q"
    using pos by (simp add: to_double_def Let_def e_def [symmetric] emax scaled)
  then show ?thesis
    by (simp only: q_def)
qed

lemma to_double_quotient:
  assumes a: "0 < a" "a < 2 ^ 53" and b: "0 < b" "b < 2 ^ 53"
  shows "\<exists>r. to_double (of_int a / of_int b) = Inr r \<and> of_int (a div b) \<le> r \<and> r < of_int (a div b) + 1"
proof -
  define q :: rat where "q = of_int a / of_int b"
  define k where "k = a div b"
  have pos: "0 < q"
    using a b by (simp add: q_def)
  have bq: "of_int b * q = of_int a"
    using b by (simp add: q_def)
  have kb: "k * b \<le> a"
  proof -
    have "a = k * b + a mod b" unfolding k_def by simp
    moreover have "0 \<le> a mod b" using b by simp
    ultimately show ?thesis by linarith
  qed
  have k_le: "of_int k \<le> q"
  proof -
    from kb have "(of_int (k * b) :: rat) \<le> of_int a" by (simp only: of_int_le_iff)
    then show ?thesis using b by (simp add: q_def pos_le_divide_eq)
  qed
  have k_gt: "q + 1 / of_int b \<le> of_int k + 1"
  proof -
    have "a = k * b + a mod b" unfolding k_def by simp
    moreover have "a mod b < b" using b by simp
    ultimately have "a + 1 \<le> (k + 1) * b" by (simp add: algebra_simps)
    then have "(of_int (a + 1) :: rat) \<le> of_int ((k + 1) * b)" by (simp only: of_int_le_iff)
    then have "of_int a + 1 \<le> (of_int k + 1) * (of_int b :: rat)" by simp
    then have "(of_int a + 1) / of_int b \<le> (of_int k + 1 :: rat)"
      using b by (simp add: pos_divide_le_eq)
    then show ?thesis by (simp add: q_def add_divide_distrib)
  qed
  have k_nonneg: "0 \<le> k"
    unfolding k_def using a b by (simp add: pos_imp_zdiv_nonneg_iff)
  have k_small: "k < 2 ^ 53"
  proof -
    have "k * 1 \<le> k * b"
      using k_nonneg b by (intro mult_left_mono) simp_all
    with kb a show ?thesis by simp
  qed
  define e where "e = floor_log2 q"
  have "(2::rat) powi (- 53) \<le> 1 / of_int b"
  proof -
    have "(of_int b :: rat) \<le> of_int (2 ^ 53)" using b by (simp only: of_int_le_iff)
    then have "1 / (2::rat) ^ 53 \<le> 1 / of_int b"
      using b by (intro divide_left_mono) simp_all
    then show ?thesis by (simp add: power_int_minus_divide)
  qed
  also have "\<dots> \<le> q"
  proof -
    have "(1::rat) \<le> of_int a" using a by simp
    then show ?thesis using b by (simp add: q_def divide_right_mono)
  qed
  finally have e_lo: "- 53 \<le> e"
    unfolding e_def by (rule floor_log2_ge [OF pos])
  have "q \<le> of_int a"
    using a b by (simp add: q_def divide_le_eq mult_le_cancel_left1)
  also have "\<dots> < of_int (2 ^ 53)" using a by (simp only: of_int_less_iff)
  also have "\<dots> = (2::rat) powi 53" by simp
  finally have e_hi: "e < 53"
    unfolding e_def by (rule floor_log2_le [OF pos])
  have emax: "max e (- 1022) = e"
    using e_lo by simp
  define j where "j = nat (52 - e)"
  have j: "int j = 52 - e" using e_hi by (simp add: j_def)
  have ulp: "(2::rat) powi (e - 52) = 1 / 2 ^ j"
  proof -
    have "(2::rat) powi (e - 52) = 2 powi (- int j)" by (simp add: j)
    then show ?thesis by (simp add: power_int_minus_divide)
  qed
  define x where "x = q * 2 ^ j"
  have x: "q / 2 powi (e - 52) = x" by (simp add: ulp x_def)
  define N where "N = round_half_even x"
  have N_lo: "k * 2 ^ j \<le> N"
  proof -
    have "of_int (k * 2 ^ j) \<le> x"
      using k_le by (simp add: x_def)
    then have "k * 2 ^ j \<le> \<lfloor>x\<rfloor>" by (simp only: le_floor_iff)
    also have "\<dots> \<le> N" unfolding N_def by (rule round_half_even_ge_floor)
    finally show ?thesis .
  qed
  have b_small: "of_int b < (2::rat) * 2 ^ j"
  proof -
    have "(2::rat) powi e \<le> q" unfolding e_def by (rule floor_log2_bounds(1) [OF pos])
    then have "2 powi e * of_int b \<le> (of_int a :: rat)"
      using b by (simp add: q_def pos_le_divide_eq)
    also have "\<dots> < of_int (2 ^ 53)" using a by (simp only: of_int_less_iff)
    finally have "2 powi e * of_int b < (2::rat) ^ 53" by simp
    then have "of_int b < (2::rat) ^ 53 / 2 powi e"
      by (simp add: pos_less_divide_eq mult.commute)
    also have "\<dots> = 2 powi (53 - e)" by (simp add: power_int_diff)
    also have "\<dots> = 2 powi (1 + int j)" by (simp add: j)
    also have "\<dots> = 2 * 2 ^ j" by (simp add: power_int_add)
    finally show ?thesis .
  qed
  have N_hi: "N < (k + 1) * 2 ^ j"
  proof -
    have "of_int N \<le> x + 1 / 2" unfolding N_def by (rule round_half_even_le)
    also have "\<dots> < x + 2 ^ j / of_int b"
      using b b_small by (simp add: pos_less_divide_eq)
    also have "\<dots> = (q + 1 / of_int b) * 2 ^ j"
      by (simp add: x_def algebra_simps)
    also have "\<dots> \<le> (of_int k + 1) * 2 ^ j"
      using k_gt by (simp add: mult_right_mono)
    finally have "(of_int N :: rat) < of_int ((k + 1) * 2 ^ j)" by simp
    then show ?thesis by (simp only: of_int_less_iff)
  qed
  define r :: rat where "r = of_int N / 2 ^ j"
  have r_lo: "of_int k \<le> r"
  proof -
    have "(of_int (k * 2 ^ j) :: rat) \<le> of_int N" using N_lo by (simp only: of_int_le_iff)
    then show ?thesis by (simp add: r_def pos_le_divide_eq)
  qed
  have r_hi: "r < of_int k + 1"
  proof -
    have "(of_int N :: rat) < of_int ((k + 1) * 2 ^ j)" using N_hi by (simp only: of_int_less_iff)
    then show ?thesis by (simp add: r_def pos_divide_less_eq)
  qed
  have no_overflow: "\<not> 2 ^ 1024 \<le> \<bar>r\<bar>"
  proof -
    have "0 \<le> r" using r_lo k_nonneg by (meson of_int_0_le_iff order_trans)
    moreover have "of_int k + 1 \<le> (of_int (2 ^ 53) :: rat)"
      using k_small by (metis of_int_1 of_int_add of_int_le_iff zless_imp_add1_zle)
    moreover have "(of_int (2 ^ 53) :: rat) < 2 ^ 1024" by simp
    ultimately show ?thesis using r_hi by linarith
  qed
  have N': "round_half_even (q * 2 ^ j) = N"
    by (simp add: N_def x_def)
  have "to_double q = Inr r"
    using pos no_overflow
    by (simp add: to_double_def Let_def e_def [symmetric] emax ulp N' r_def)
  with r_lo r_hi show ?thesis
    unfolding q_def k_def by blast
qed

lemma int_of_float_between: "0 \<le> k \<Longrightarrow> of_int k \<le> r \<Longrightarrow> r < of_int k + 1 \<Longrightarrow> int_of_float r = k"
  by (simp add: int_of_float_def floor_unique)

lemma margin_floor:
  assumes "0 \<le> margin_percent" and "uint resolution * margin_percent < 2 ^ 53"
  shows "margin resolution (PyInt margin_percent) = Inr (uint resolution * margin_percent div 100)"
proof (cases "uint resolution * margin_percent = 0")
  case True
  show ?thesis
    by (simp only: margin.simps True)
      (simp add: int_true_divide_def to_double_def and_then_def int_of_float_def)
next
  case False
  then have "0 < uint resolution * margin_percent"
    using assms(1) by (simp add: less_le)
  from to_double_quotient [OF this assms(2), of 100]
  obtain r where r: "to_double (of_int (uint resolution * margin_percent) / of_int 100) = Inr r"
    and "of_int (uint resolution * margin_percent div 100) \<le> r"
    and "r < of_int (uint resolution * margin_percent div 100) + 1"
    by auto
  moreover have "0 \<le> uint resolution * margin_percent div 100"
    using assms(1) by (simp add: pos_imp_zdiv_nonneg_iff)
  ultimately have "int_of_float r = uint resolution * margin_percent div 100"
    by (intro int_of_float_between)
  with r show ?thesis
    by (simp add: int_true_divide_def and_then_def)
qed


section \<open>The grid of six cells\<close>

lemma grid_of_floor:
  assumes "0 \<le> margin_percent"
    and "uint (xres var_info) * margin_percent < 2 ^ 53"
    and "uint (yres var_info) * margin_percent < 2 ^ 53"
  shows "grid_of var_info (PyInt margin_percent) =
    Inr \<lparr>horizontal_margin = uint (xres var_info) * margin_percent div 100,
         vertical_margin = uint (yres var_info) * margin_percent div 100,
         available_width = (uint (xres var_info) - 4 * (uint (xres var_info) * margin_percent div 100)) div 3,
         available_height = (uint (yres var_info) - 3 * (uint (yres var_info) * margin_percent div 100)) div 2\<rparr>"
  by (simp only: grid_of_def margin_floor [OF assms(1,2)] margin_floor [OF assms(1,3)])
    (simp add: and_then_def)

text \<open>
  Two intervals of length \<open>a\<close> that start at \<open>m + c * (a + m)\<close> for different
  \<open>c < 3\<close> have no point in common when \<open>m\<close> is not negative.
\<close>

lemma strides_disjoint:
  fixes m a x :: int
  assumes "0 \<le> m" and "c < 3" and "d < 3" and "c \<noteq> d"
    and "m + int c * (a + m) \<le> x" and "x < m + int c * (a + m) + a"
    and "m + int d * (a + m) \<le> x" and "x < m + int d * (a + m) + a"
  shows False
proof -
  have c: "c = 0 \<or> c = 1 \<or> c = 2" using assms(2) by arith
  have d: "d = 0 \<or> d = 1 \<or> d = 2" using assms(3) by arith
  from c d assms(1,4-8) show False
    by (elim disjE) simp_all
qed

lemma cells_disjoint:
  assumes margins: "0 \<le> horizontal_margin g" "0 \<le> vertical_margin g"
    and "i < 6" and "j < 6" and "i \<noteq> j"
    and "in_cell g i p" and "in_cell g j p"
  shows False
proof -
  have col: "i mod 3 < 3" "j mod 3 < 3" by simp_all
  have rw: "i div 3 < 3" "j div 3 < 3" using assms(3,4) by simp_all
  have "i mod 3 \<noteq> j mod 3 \<or> i div 3 \<noteq> j div 3"
    using \<open>i \<noteq> j\<close> by (metis div_mult_mod_eq)
  then show False
  proof
    assume "i mod 3 \<noteq> j mod 3"
    then show False
      using strides_disjoint [OF margins(1) col, of "available_width g" "fst p"] assms(6,7)
      by (simp add: in_cell_def cell_origin_def)
  next
    assume "i div 3 \<noteq> j div 3"
    then show False
      using strides_disjoint [OF margins(2) rw, of "available_height g" "snd p"] assms(6,7)
      by (simp add: in_cell_def cell_origin_def)
  qed
qed

lemma paste_images_foldl:
  assumes "\<And>k. k < length image_paths \<Longrightarrow>
      Image_open ext (image_paths ! k) = Inr (img (i + k)) \<and> 0 < width (img (i + k)) \<and> 0 < height (img (i + k))"
    and "\<And>k. k < length image_paths \<Longrightarrow>
      new_size (i + k) = scaled_size ext (available_width g) (available_height g)
                           (width (img (i + k))) (height (img (i + k))) \<and>
      resize ext (img (i + k)) (new_size (i + k)) = Inr (resized_img (i + k))"
    and "\<And>k. k < length image_paths \<Longrightarrow>
      offset (i + k) = (fst (cell_origin g (i + k)) + (available_width g - fst (new_size (i + k))) div 2,
                        snd (cell_origin g (i + k)) + (available_height g - snd (new_size (i + k))) div 2)"
  shows "paste_images ext g i image_paths layout =
    Inr (foldl (\<lambda>layout j. paste layout (resized_img j) (offset j)) layout [i..<i + length image_paths])"
  using assms
proof (induction image_paths arbitrary: i layout)
  case Nil
  then show ?case by simp
next
  case (Cons image_path image_paths)
  from Cons.prems(1) [of 0, simplified] Cons.prems(2) [of 0, simplified]
    Cons.prems(3) [of 0, simplified]
  have first: "Image_open ext image_path = Inr (img i)" "0 < width (img i)" "0 < height (img i)"
    "new_size i = scaled_size ext (available_width g) (available_height g) (width (img i)) (height (img i))"
    "resize ext (img i) (new_size i) = Inr (resized_img i)"
    "offset i = (fst (cell_origin g i) + (available_width g - fst (new_size i)) div 2,
      snd (cell_origin g i) + (available_height g - snd (new_size i)) div 2)"
    by blast+
  have rest: "paste_images ext g (Suc i) image_paths (paste layout (resized_img i) (offset i)) =
    Inr (foldl (\<lambda>layout j. paste layout (resized_img j) (offset j))
      (paste layout (resized_img i) (offset i)) [Suc i..<Suc i + length image_paths])"
  proof (rule Cons.IH)
    fix k assume k: "k < length image_paths"
    from Cons.prems(1) [of "Suc k"] k
    show "Image_open ext (image_paths ! k) = Inr (img (Suc i + k)) \<and>
        0 < width (img (Suc i + k)) \<and> 0 < height (img (Suc i + k))"
      by auto
    from Cons.prems(2) [of "Suc k"] k
    show "new_size (Suc i + k) = scaled_size ext (available_width g) (available_height g)
                           (width (img (Suc i + k))) (height (img (Suc i + k))) \<and>
      resize ext (img (Suc i + k)) (new_size (Suc i + k)) = Inr (resized_img (Suc i + k))"
      by auto
    from Cons.prems(3) [of "Suc k"] k
    show "offset (Suc i + k) =
        (fst (cell_origin g (Suc i + k)) + (available_width g - fst (new_size (Suc i + k))) div 2,
         snd (cell_origin g (Suc i + k)) + (available_height g - snd (new_size (Suc i + k))) div 2)"
      by auto
  qed
  have upt: "[i..<i + length (image_path # image_paths)] = i # [Suc i..<Suc i + length image_paths]"
    using upt_conv_Cons [of i "i + length (image_path # image_paths)"] by simp
  show ?case
    by (simp only: upt foldl_Cons)
      (simp add: first(1-3,5) first(4) [symmetric] first(6) [symmetric] and_then_def Let_def rest)
qed

text \<open>
  Claim C5, as amended. For an integer margin percentage that is not negative and whose
  products with the width and the height are below \<open>2 ^ 53\<close>, the composition computes
  the margins \<open>\<lfloor>width * margin_percent / 100\<rfloor>\<close> and \<open>\<lfloor>height * margin_percent / 100\<rfloor>\<close>
  and the cell size \<open>\<lfloor>(width - 4 * h_margin) / 3\<rfloor>\<close> by
  \<open>\<lfloor>(height - 3 * v_margin) / 2\<rfloor>\<close> (\<open>div\<close> on integers is the floor of the quotient);
  cell \<open>i\<close> of the six starts at
  \<open>(h_margin + (i mod 3) * (cell_width + h_margin), v_margin + (i div 3) * (cell_height + v_margin))\<close>;
  the frame that is encoded is the black canvas on which image \<open>i\<close>, resized, is pasted
  at the origin of cell \<open>i\<close> moved by half of what the image leaves free of the cell;
  no point lies in two different cells; and on 1920 by 1080 at 5 percent the four
  values are 96, 54, 512 and 459. The claim as stated fails for a negative percentage,
  where \<^verbatim>\<open>int\<close> truncates towards zero and cells overlap, and for products from
  \<open>2 ^ 53\<close> on and for floats, where the quotient is rounded.
\<close>

theorem grid3x2_composition:
  assumes percent: "0 \<le> margin_percent"
      "uint (xres var_info) * margin_percent < 2 ^ 53" "uint (yres var_info) * margin_percent < 2 ^ 53"
    and g: "g = \<lparr>horizontal_margin = uint (xres var_info) * margin_percent div 100,
                 vertical_margin = uint (yres var_info) * margin_percent div 100,
                 available_width = (uint (xres var_info) - 4 * (uint (xres var_info) * margin_percent div 100)) div 3,
                 available_height = (uint (yres var_info) - 3 * (uint (yres var_info) * margin_percent div 100)) div 2\<rparr>"
    and dev: "vscreeninfo fb = Some var_info" "fscreeninfo fb = Some fix_info"
    and paths: "length image_paths = 6"
    and images: "\<forall>i<6. Image_open ext (image_paths ! i) = Inr (img i) \<and> 0 < width (img i) \<and> 0 < height (img i)"
    and resized: "\<forall>i<6. new_size i = scaled_size ext (available_width g) (available_height g)
                                    (width (img i)) (height (img i)) \<and>
                       resize ext (img i) (new_size i) = Inr (resized_img i)"
    and offset: "\<forall>i<6. offset i = (fst (cell_origin g i) + (available_width g - fst (new_size i)) div 2,
                                    snd (cell_origin g i) + (available_height g - snd (new_size i)) div 2)"
  shows "grid_of var_info (PyInt margin_percent) = Inr g \<and>
    (\<forall>i<6. cell_origin g i =
       (horizontal_margin g + int (i mod 3) * (available_width g + horizontal_margin g),
        vertical_margin g + int (i div 3) * (available_height g + vertical_margin g))) \<and>
    display_six_images_bytes ext image_paths fb (PyInt margin_percent) =
      Inr (encode var_info (np_array
        (foldl (\<lambda>layout i. paste layout (resized_img i) (offset i))
           (Image_new (unat (xres var_info), unat (yres var_info))) [0..<6]))) \<and>
    (\<forall>i<6. \<forall>j<6. i \<noteq> j \<longrightarrow> \<not> (\<exists>p. in_cell g i p \<and> in_cell g j p)) \<and>
    (xres var_info = 1920 \<and> yres var_info = 1080 \<and> margin_percent = 5 \<longrightarrow>
       g = \<lparr>horizontal_margin = 96, vertical_margin = 54, available_width = 512, available_height = 459\<rparr>)"
proof -
  have grid: "grid_of var_info (PyInt margin_percent) = Inr g"
    by (simp only: g grid_of_floor [OF percent])
  have origin: "\<forall>i<6. cell_origin g i =
       (horizontal_margin g + int (i mod 3) * (available_width g + horizontal_margin g),
        vertical_margin g + int (i div 3) * (available_height g + vertical_margin g))"
    by (simp add: cell_origin_def)
  have "paste_images ext g 0 image_paths (Image_new (unat (xres var_info), unat (yres var_info))) =
      Inr (foldl (\<lambda>layout i. paste layout (resized_img i) (offset i))
           (Image_new (unat (xres var_info), unat (yres var_info))) [0..<0 + length image_paths])"
  proof (rule paste_images_foldl [where img = img and new_size = new_size])
    fix k assume "k < length image_paths"
    then have k: "k < 6" by (simp add: paths)
    show "Image_open ext (image_paths ! k) = Inr (img (0 + k)) \<and>
        0 < width (img (0 + k)) \<and> 0 < height (img (0 + k))"
      using images [rule_format, OF k] by simp
    show "new_size (0 + k) = scaled_size ext (available_width g) (available_height g)
          (width (img (0 + k))) (height (img (0 + k))) \<and>
        resize ext (img (0 + k)) (new_size (0 + k)) = Inr (resized_img (0 + k))"
      unfolding add_0 by (rule resized [rule_format, OF k])
    show "offset (0 + k) =
        (fst (cell_origin g (0 + k)) + (available_width g - fst (new_size (0 + k))) div 2,
         snd (cell_origin g (0 + k)) + (available_height g - snd (new_size (0 + k))) div 2)"
      unfolding add_0 by (rule offset [rule_format, OF k])
  qed
  then have bytes: "display_six_images_bytes ext image_paths fb (PyInt margin_percent) =
      Inr (encode var_info (np_array
        (foldl (\<lambda>layout i. paste layout (resized_img i) (offset i))
           (Image_new (unat (xres var_info), unat (yres var_info))) [0..<6])))"
    using paths dev
    by (simp add: display_six_images_bytes_def get_var_info_def get_fix_info_def grid and_then_def)
  have margins: "0 \<le> horizontal_margin g" "0 \<le> vertical_margin g"
    using percent(1) by (simp_all add: g pos_imp_zdiv_nonneg_iff)
  have "\<not> (\<exists>p. in_cell g i p \<and> in_cell g j p)" if "i < 6" "j < 6" "i \<noteq> j" for i j
    using cells_disjoint [OF margins that] by blast
  then have disjoint: "\<forall>i<6. \<forall>j<6. i \<noteq> j \<longrightarrow> \<not> (\<exists>p. in_cell g i p \<and> in_cell g j p)"
    by simp
  have numbers: "xres var_info = 1920 \<and> yres var_info = 1080 \<and> margin_percent = 5 \<longrightarrow>
       g = \<lparr>horizontal_margin = 96, vertical_margin = 54, available_width = 512, available_height = 459\<rparr>"
    by (simp add: g)
  show ?thesis
    using grid origin bytes disjoint numbers by (intro conjI)
qed

text \<open>
  At minus 5 percent on 1930 by 1090 the horizontal margin is \<^verbatim>\<open>int(-96.5)\<close>, which is
  \<open>-96\<close> where the floor is \<open>-97\<close>, and the point \<open>(600, 0)\<close> lies in cell 0 and in
  cell 1.
\<close>

theorem grid3x2_negative_margin_counterexample:
  "grid_of (screen_mode 1930 1090 32 (16, 8, 0) (8, 8, 0) (0, 8, 0) (24, 8, 0)) (PyInt (- 5)) =
     Inr \<lparr>horizontal_margin = - 96, vertical_margin = - 54, available_width = 771, available_height = 626\<rparr> \<and>
   (1930 * (- 5)) div 100 = (- 97 :: int) \<and>
   in_cell \<lparr>horizontal_margin = - 96, vertical_margin = - 54, available_width = 771, available_height = 626\<rparr>
     0 (600, 0) \<and>
   in_cell \<lparr>horizontal_margin = - 96, vertical_margin = - 54, available_width = 771, available_height = 626\<rparr>
     1 (600, 0)"
proof -
  have h: "to_double (- (193 / 2)) = Inr (- (193 / 2))"
    using to_double_dyadic [of "- 193" 1] by simp
  have v: "to_double (- (109 / 2)) = Inr (- (109 / 2))"
    using to_double_dyadic [of "- 109" 1] by simp
  have "\<lceil>- (193 / 2) :: rat\<rceil> = - 96" "\<lceil>- (109 / 2) :: rat\<rceil> = - 54"
    by (rule ceiling_unique; simp)+
  then have "margin 1930 (PyInt (- 5)) = Inr (- 96)" "margin 1090 (PyInt (- 5)) = Inr (- 54)"
    by (simp_all add: int_true_divide_def h v and_then_def int_of_float_def)
  then show ?thesis
    by (simp add: grid_of_def screen_mode_def and_then_def in_cell_def cell_origin_def)
qed

theorem grid3x2_composition_witness:
  "(0::int) \<le> 5 \<and>
   grid_of (screen_mode 1920 1080 32 (16, 8, 0) (8, 8, 0) (0, 8, 0) (24, 8, 0)) (PyInt 5) =
     Inr \<lparr>horizontal_margin = 96, vertical_margin = 54, available_width = 512, available_height = 459\<rparr> \<and>
   display_six_images_bytes (example_externals (solid_image 4 4 (1, 2, 3)))
     [''a.jpg'', ''b.jpg'', ''c.jpg'', ''d.jpg'', ''e.jpg'', ''f.jpg'']
     (example_framebuffer (screen_mode 1920 1080 32 (16, 8, 0) (8, 8, 0) (0, 8, 0) (24, 8, 0))) (PyInt 5) =
     Inr (encode (screen_mode 1920 1080 32 (16, 8, 0) (8, 8, 0) (0, 8, 0) (24, 8, 0)) (np_array
       (foldl (\<lambda>layout i. paste layout (solid_image 459 459 (1, 2, 3))
                 (fst (cell_origin \<lparr>horizontal_margin = 96, vertical_margin = 54,
                                    available_width = 512, available_height = 459\<rparr> i) + 26,
                  snd (cell_origin \<lparr>horizontal_margin = 96, vertical_margin = 54,
                                    available_width = 512, available_height = 459\<rparr> i)))
          (Image_new (1920, 1080)) [0..<6])))"
proof -
  let ?v = "screen_mode 1920 1080 32 (16, 8, 0) (8, 8, 0) (0, 8, 0) (24, 8, 0)"
  let ?g = "\<lparr>horizontal_margin = 96, vertical_margin = 54, available_width = 512, available_height = 459\<rparr>"
  let ?ext = "example_externals (solid_image 4 4 (1, 2, 3))"
  let ?paths = "[''a.jpg'', ''b.jpg'', ''c.jpg'', ''d.jpg'', ''e.jpg'', ''f.jpg'']"
  have percent: "(0::int) \<le> 5" "uint (xres ?v) * 5 < 2 ^ 53" "uint (yres ?v) * 5 < 2 ^ 53"
    by (simp_all add: screen_mode_def)
  have g: "?g = \<lparr>horizontal_margin = uint (xres ?v) * 5 div 100,
                 vertical_margin = uint (yres ?v) * 5 div 100,
                 available_width = (uint (xres ?v) - 4 * (uint (xres ?v) * 5 div 100)) div 3,
                 available_height = (uint (yres ?v) - 3 * (uint (yres ?v) * 5 div 100)) div 2\<rparr>"
    by (simp add: screen_mode_def)
  have dev: "vscreeninfo (example_framebuffer ?v) = Some ?v"
      "fscreeninfo (example_framebuffer ?v) = Some example_fix_info"
    by (simp_all add: example_framebuffer_def)
  have paths: "length ?paths = 6" by simp
  have images: "\<forall>i<6. Image_open ?ext (?paths ! i) = Inr (solid_image 4 4 (1, 2, 3)) \<and>
      0 < width (solid_image 4 4 (1, 2, 3)) \<and> 0 < height (solid_image 4 4 (1, 2, 3))"
    by (simp add: example_externals_def solid_image_def)
  have resized: "\<forall>i<6. (459, 459) = scaled_size ?ext (available_width ?g) (available_height ?g)
        (width (solid_image 4 4 (1, 2, 3))) (height (solid_image 4 4 (1, 2, 3))) \<and>
      resize ?ext (solid_image 4 4 (1, 2, 3)) (459, 459) = Inr (solid_image 459 459 (1, 2, 3))"
    by (simp add: example_externals_def solid_image_def int_truediv_def)
  have offset: "\<forall>i<6. (fst (cell_origin ?g i) + 26, snd (cell_origin ?g i)) =
      (fst (cell_origin ?g i) + (available_width ?g - fst (459::int, 459::int)) div 2,
       snd (cell_origin ?g i) + (available_height ?g - snd (459::int, 459::int)) div 2)"
    by simp
  have res: "unat (xres ?v) = 1920" "unat (yres ?v) = 1080"
    by (simp_all add: screen_mode_def)
  from grid3x2_composition [OF percent g dev paths images resized offset] percent(1)
  show ?thesis
    by (simp only: res)
qed

text \<open>
  Beyond \<open>2 ^ 53\<close> and on floats the quotient is rounded: at the percentage
  \<open>10 ^ 16 + 1\<close> on a width of 1920 the margin is 192000000000000032 where the floor
  is 192000000000000019, and at the float nearest to 0.7, which is below 0.7, on a width
  of 1000 the margin is 7 where the floor is 6.
\<close>

lemma margin_beyond_2_53:
  "margin 1920 (PyInt 10000000000000001) = Inr 192000000000000032"
  by code_simp

lemma margin_float:
  "margin 1000 (PyFloat (3152519739159347 / 4503599627370496)) = Inr 7"
  by code_simp

section \<open>The count of six images\<close>

text \<open>
  Claim C6. When the list does not hold exactly six paths, \<^verbatim>\<open>display_six_images\<close> raises
  its \<^verbatim>\<open>ValueError\<close> before it queries the device, opens an image or composes anything: no
  buffer is produced and the device is left as it was, whatever the external operations do.
\<close>

theorem display_six_images_wrong_count:
  assumes "length image_paths \<noteq> 6"
  shows "display_six_images_bytes ext image_paths fb margin_percent = Inl ValueError \<and>
         display_six_images ext image_paths fb margin_percent = (Inl ValueError, fb)"
  using assms by (simp add: display_six_images_def display_six_images_bytes_def)

theorem display_six_images_wrong_count_witness:
  "length [''a.jpg'', ''b.jpg'', ''c.jpg'', ''d.jpg'', ''e.jpg''] \<noteq> 6 \<and>
   display_six_images (example_externals (solid_image 4 4 (1, 2, 3)))
     [''a.jpg'', ''b.jpg'', ''c.jpg'', ''d.jpg'', ''e.jpg'']
     (example_framebuffer (screen_mode 1920 1080 32 (16, 8, 0) (8, 8, 0) (0, 8, 0) (24, 8, 0))) (PyInt 5)
   = (Inl ValueError, example_framebuffer (screen_mode 1920 1080 32 (16, 8, 0) (8, 8, 0) (0, 8, 0) (24, 8, 0)))"
  using display_six_images_wrong_count [of "[''a.jpg'', ''b.jpg'', ''c.jpg'', ''d.jpg'', ''e.jpg'']"
      "example_externals (solid_image 4 4 (1, 2, 3))"
      "example_framebuffer (screen_mode 1920 1080 32 (16, 8, 0) (8, 8, 0) (0, 8, 0) (24, 8, 0))" "PyInt 5"]
  by simp

section \<open>The side-by-side layout\<close>

lemma int_truediv_nonneg: "0 \<le> a \<Longrightarrow> 0 < b \<Longrightarrow> int_truediv a b = a div b"
  by (cases "a = 0") (simp_all add: int_truediv_def)

lemma dual_new_size_eq:
  assumes "0 < width img"
  shows "dual_new_size var_info img =
    Inr (uint (xres var_info) div 2, uint (xres var_info) div 2 * int (height img) div int (width img))"
proof -
  have "0 \<le> uint (xres var_info) div 2 * int (height img)"
    by (simp add: pos_imp_zdiv_nonneg_iff)
  then show ?thesis
    using assms by (simp add: dual_new_size_def Let_def int_truediv_nonneg)
qed

lemma getpixel_paste:
  "getpixel (paste im src box) x y =
     (if covers src box x y then getpixel src (nat (int x - fst box)) (nat (int y - snd box))
      else getpixel im x y)"
  by (simp add: paste_def)

lemma size_paste: "width (paste im src box) = width im" "height (paste im src box) = height im"
  by (simp_all add: paste_def)

lemma size_dual_combined_image:
  "width (dual_combined_image var_info resized_image new_width) = unat (xres var_info)"
  "height (dual_combined_image var_info resized_image new_width) = unat (yres var_info)"
  by (simp_all add: dual_combined_image_def Let_def size_paste Image_new_def)

lemma getpixel_dual_combined_image:
  "getpixel (dual_combined_image var_info resized_image new_width) x y =
     (if covers resized_image (new_width, 0) x y
      then getpixel resized_image (nat (int x - new_width)) y
      else if covers resized_image (0, 0) x y then getpixel resized_image x y
      else (0, 0, 0))"
  by (simp add: dual_combined_image_def Let_def getpixel_paste Image_new_def)

text \<open>
  Claim C7. With a device of width \<open>xres\<close> and a source image of positive width, the new
  width is \<open>xres div 2\<close> and the new height is \<open>new_width * source_height div source_width\<close>;
  the source is resized once, to that size, and the frame that is encoded is a canvas of
  the screen's size on which that one resized image is pasted at \<open>(0, 0)\<close> and then at
  \<open>(new_width, 0)\<close>: the pixel \<open>(x, y)\<close> of the resized image is at
  \<open>(new_width + x, y)\<close> of the canvas, and at \<open>(x, y)\<close> for \<open>x < new_width\<close>. On a
  1280 pixels wide device with a 640 by 480 source the new size is 640 by 480 and the
  second paste is at \<open>(640, 0)\<close>.
\<close>

theorem dual_layout:
  assumes dev: "vscreeninfo fb = Some var_info" "fscreeninfo fb = Some fix_info"
    and source: "Image_open ext image_path = Inr img" "0 < width img"
    and new_size: "new_width = uint (xres var_info) div 2"
      "new_height = new_width * int (height img) div int (width img)"
    and resized: "resize ext img (new_width, new_height) = Inr resized_image"
  shows "dual_new_size var_info img = Inr (new_width, new_height) \<and>
    display_dual_images_bytes ext image_path fb =
      Inr (encode var_info (np_array
        (paste (paste (Image_new (unat (xres var_info), unat (yres var_info))) resized_image (0, 0))
           resized_image (new_width, 0)))) \<and>
    (\<forall>x<width resized_image. \<forall>y<height resized_image.
       getpixel (dual_combined_image var_info resized_image new_width) (nat new_width + x) y
         = getpixel resized_image x y \<and>
       (int x < new_width \<longrightarrow>
          getpixel (dual_combined_image var_info resized_image new_width) x y = getpixel resized_image x y)) \<and>
    (xres var_info = 1280 \<and> width img = 640 \<and> height img = 480 \<longrightarrow>
       new_width = 640 \<and> new_height = 480 \<and>
       dual_combined_image var_info resized_image new_width =
         paste (paste (Image_new (1280, unat (yres var_info))) resized_image (0, 0)) resized_image (640, 0))"
proof -
  have size: "dual_new_size var_info img = Inr (new_width, new_height)"
    using dual_new_size_eq [OF source(2)] new_size by simp
  have bytes: "display_dual_images_bytes ext image_path fb =
      Inr (encode var_info (np_array
        (paste (paste (Image_new (unat (xres var_info), unat (yres var_info))) resized_image (0, 0))
           resized_image (new_width, 0))))"
    using dev source(1) resized
    by (simp add: display_dual_images_bytes_def get_var_info_def get_fix_info_def and_then_def
        size dual_combined_image_def Let_def)
  have nonneg: "0 \<le> new_width"
    using new_size(1) by (simp add: pos_imp_zdiv_nonneg_iff)
  have copies: "\<forall>x<width resized_image. \<forall>y<height resized_image.
       getpixel (dual_combined_image var_info resized_image new_width) (nat new_width + x) y
         = getpixel resized_image x y \<and>
       (int x < new_width \<longrightarrow>
          getpixel (dual_combined_image var_info resized_image new_width) x y = getpixel resized_image x y)"
    using nonneg by (simp add: getpixel_dual_combined_image covers_def)
  have example: "xres var_info = 1280 \<and> width img = 640 \<and> height img = 480 \<longrightarrow>
       new_width = 640 \<and> new_height = 480 \<and>
       dual_combined_image var_info resized_image new_width =
         paste (paste (Image_new (1280, unat (yres var_info))) resized_image (0, 0)) resized_image (640, 0)"
    using new_size by (simp add: dual_combined_image_def Let_def)
  show ?thesis
    using size bytes copies example by (intro conjI)
qed

theorem dual_layout_witness:
  "0 < width (solid_image 640 480 (1, 2, 3)) \<and>
   dual_new_size (screen_mode 1280 720 32 (16, 8, 0) (8, 8, 0) (0, 8, 0) (24, 8, 0))
     (solid_image 640 480 (1, 2, 3)) = Inr (640, 480) \<and>
   display_dual_images_bytes (example_externals (solid_image 640 480 (1, 2, 3))) ''FOGAO.jpg''
     (example_framebuffer (screen_mode 1280 720 32 (16, 8, 0) (8, 8, 0) (0, 8, 0) (24, 8, 0))) =
     Inr (encode (screen_mode 1280 720 32 (16, 8, 0) (8, 8, 0) (0, 8, 0) (24, 8, 0)) (np_array
        (paste (paste (Image_new (1280, 720)) (solid_image 640 480 (1, 2, 3)) (0, 0))
           (solid_image 640 480 (1, 2, 3)) (640, 0))))"
proof -
  let ?v = "screen_mode 1280 720 32 (16, 8, 0) (8, 8, 0) (0, 8, 0) (24, 8, 0)"
  let ?img = "solid_image 640 480 (1, 2, 3)"
  have dev: "vscreeninfo (example_framebuffer ?v) = Some ?v"
      "fscreeninfo (example_framebuffer ?v) = Some example_fix_info"
    by (simp_all add: example_framebuffer_def)
  have source: "Image_open (example_externals ?img) ''FOGAO.jpg'' = Inr ?img" "0 < width ?img"
    by (simp_all add: example_externals_def solid_image_def)
  have new_size: "(640::int) = uint (xres ?v) div 2"
      "(480::int) = 640 * int (height ?img) div int (width ?img)"
    by (simp_all add: screen_mode_def solid_image_def)
  have resized: "resize (example_externals ?img) ?img (640, 480) = Inr ?img"
    by (simp add: example_externals_def solid_image_def)
  have res: "unat (xres ?v) = 1280" "unat (yres ?v) = 720"
    by (simp_all add: screen_mode_def)
  from dual_layout [OF dev source new_size resized] source(2) show ?thesis
    by (simp only: res)
qed

section \<open>The background of the side-by-side layout\<close>

text \<open>
  Claim C10. On the canvas of the side-by-side layout, every pixel that neither pasted
  copy covers is black, and so is every pixel of a row at or below the height of the
  resized image: the canvas is created without a colour, which is black, and only the
  two pastes change it.
\<close>

theorem dual_background_black:
  assumes "x < unat (xres var_info)" and "y < unat (yres var_info)"
    and "\<not> covers resized_image (0, 0) x y \<and> \<not> covers resized_image (new_width, 0) x y
         \<or> height resized_image \<le> y"
  shows "np_array (dual_combined_image var_info resized_image new_width) ! y ! x = (0, 0, 0)"
proof -
  have uncovered: "\<not> covers resized_image (0, 0) x y \<and> \<not> covers resized_image (new_width, 0) x y"
    using assms(3) by (auto simp: covers_def)
  have "np_array (dual_combined_image var_info resized_image new_width) ! y ! x =
      getpixel (dual_combined_image var_info resized_image new_width) x y"
    using assms(1,2) by (simp add: nth_np_array size_dual_combined_image)
  also have "\<dots> = (0, 0, 0)"
    using uncovered by (simp add: getpixel_dual_combined_image)
  finally show ?thesis .
qed

theorem dual_background_black_witness:
  "(2::nat) < unat (xres (screen_mode 4 3 32 (16, 8, 0) (8, 8, 0) (0, 8, 0) (24, 8, 0))) \<and>
   (1::nat) < unat (yres (screen_mode 4 3 32 (16, 8, 0) (8, 8, 0) (0, 8, 0) (24, 8, 0))) \<and>
   height (solid_image 2 1 (9, 9, 9)) \<le> 1 \<and>
   np_array (dual_combined_image (screen_mode 4 3 32 (16, 8, 0) (8, 8, 0) (0, 8, 0) (24, 8, 0))
      (solid_image 2 1 (9, 9, 9)) 2) ! 1 ! 2 = (0, 0, 0)"
  using dual_background_black [of 2 "screen_mode 4 3 32 (16, 8, 0) (8, 8, 0) (0, 8, 0) (24, 8, 0)" 1
      "solid_image 2 1 (9, 9, 9)" 2]
  by (simp add: screen_mode_def solid_image_def)

lemma dual_example_frame:
  "np_array (dual_combined_image (screen_mode 4 3 32 (16, 8, 0) (8, 8, 0) (0, 8, 0) (24, 8, 0))
      (solid_image 2 1 (9, 9, 9)) 2) =
   [[(9, 9, 9), (9, 9, 9), (9, 9, 9), (9, 9, 9)],
    [(0, 0, 0), (0, 0, 0), (0, 0, 0), (0, 0, 0)],
    [(0, 0, 0), (0, 0, 0), (0, 0, 0), (0, 0, 0)]]"
  by (simp add: np_array_def size_dual_combined_image getpixel_dual_combined_image covers_def
      screen_mode_def solid_image_def upt_rec [of _ "numeral n" for n])

end
